theory Spec2Isabelle
  imports Main "HOL-Library.Product_Lexorder" "HOL-Library.AList" "HOL-Library.Multiset"
begin

section \<open>Data model of \<open>geekcms/sequence_analyze.py\<close>\<close>

text \<open>
  Exceptions of the module as values. \<open>SyntaxError_Operand\<close> is the
  \<open>SyntaxError('Operand Error: ...')\<close> of \<open>get_theme_plugin\<close>,
  \<open>SyntaxError_Order\<close> the \<open>SyntaxError("Something Wrong. LHS: ... RHS: ...")\<close>
  of \<open>_generate_execution_order\<close> (it carries both dictionaries), and
  \<open>SyntaxError_Special\<close> the bare \<open>raise SyntaxError\<close> of
  \<open>_break_relation_group\<close>. The others are raised by the interpreter.
\<close>

datatype ('k, 'v, 'c) py_error =
    SyntaxError_Operand string
  | SyntaxError_Order "('k \<times> 'v) list" "('k \<times> 'c) list"
  | SyntaxError_Special
  | NameError string
  | AttributeError
  | IndexError

text \<open>
  Modelled from the spec: \<open>PluginIndex\<close> of \<open>geekcms/protocol.py\<close> (not part of
  the sources at hand). A Plugin Identity is a pair (namespace, name); the sentinels have
  no namespace; equality is by value.
\<close>

datatype PluginIndex = PluginIndex (theme_name: "string option") (plugin_name: string)

text \<open>
  Modelled from the spec: \<open>PluginRel\<close> and \<open>PluginExpr\<close> of
  \<open>geekcms/parser/utils.py\<close> (not part of the sources at hand): a relation is a direction
  flag and an integer degree; an expression has two operands and a relation that may be
  absent (\<open>None\<close>). Operands are strings after parsing and identities after qualification.
\<close>

record PluginRel =
  is_left_rel :: bool
  degree :: int

record 'a PluginExpr =
  left_operand :: 'a
  right_operand :: 'a
  relation :: "PluginRel option"

text \<open>Modelled from the spec: the sentinel names \<open>PluginExpr.HEAD\<close> and \<open>PluginExpr.TAIL\<close>.\<close>

definition HEAD :: string where
  "HEAD = ''HEAD''"

definition TAIL :: string where
  "TAIL = ''TAIL''"

definition SPECIAL_DEGREE :: int where
  "SPECIAL_DEGREE = - 1"

type_synonym expr = "PluginIndex PluginExpr"

type_synonym lhs_dict = "(PluginIndex \<times> PluginIndex list) list"

type_synonym rhs_dict = "(PluginIndex \<times> int) list"

type_synonym error = "(PluginIndex, PluginIndex list, int) py_error"

text \<open>
  What the algorithm takes from the interpreter: the hash of an identity (the sort keys
  of the grouping step), and the arbitrary order of a \<open>set\<close>. A set is kept as the list
  of its distinct elements; \<open>pop_slot\<close> says which of them \<open>set.pop()\<close> returns and
  \<open>iter_slot\<close> which comes next when the set is iterated.
\<close>

record runtime =
  py_hash :: "PluginIndex \<Rightarrow> int"
  pop_slot :: "PluginIndex list \<Rightarrow> nat"
  iter_slot :: "PluginIndex list \<Rightarrow> nat"

section \<open>Namespace qualification (\<open>SequenceParser\<close>)\<close>

text \<open>\<open>operand.split('.')\<close>: one more item than there are dots.\<close>

fun split_dot :: "string \<Rightarrow> string list" where
  "split_dot [] = [[]]"
| "split_dot (c # cs) =
     (if c = CHR ''.'' then [] # split_dot cs
      else (case split_dot cs of [] \<Rightarrow> [[c]] | w # ws \<Rightarrow> (c # w) # ws))"

definition get_theme_plugin :: "string \<Rightarrow> string \<Rightarrow> error + (string option \<times> string)" where
  "get_theme_plugin theme operand =
     (if operand = HEAD \<or> operand = TAIL then Inr (None, operand)
      else (case split_dot operand of
              [x] \<Rightarrow> Inr (Some theme, operand)
            | [t, p] \<Rightarrow> Inr (Some t, p)
            | _ \<Rightarrow> Inl (SyntaxError_Operand operand)))"

fun replace_with_plugin_index :: "string \<Rightarrow> string PluginExpr list \<Rightarrow> error + expr list" where
  "replace_with_plugin_index theme [] = Inr []"
| "replace_with_plugin_index theme (e # es) =
     (case get_theme_plugin theme (left_operand e) of
        Inl err \<Rightarrow> Inl err
      | Inr (left_theme, left_plugin) \<Rightarrow>
        (case get_theme_plugin theme (right_operand e) of
           Inl err \<Rightarrow> Inl err
         | Inr (right_theme, right_plugin) \<Rightarrow>
           (case replace_with_plugin_index theme es of
              Inl err \<Rightarrow> Inl err
            | Inr processed_exprs \<Rightarrow>
                Inr (\<lparr>left_operand = PluginIndex left_theme left_plugin,
                      right_operand = PluginIndex right_theme right_plugin,
                      relation = relation e\<rparr> # processed_exprs))))"

text \<open>
  Modelled from the spec: the flags of the process-wide \<open>ErrorCollector\<close> of
  \<open>geekcms/parser/utils.py\<close> that \<open>_archive_error\<close> reads after a parse.
\<close>

record ErrorCollector =
  lex_error :: bool
  yacc_error :: bool

record SequenceParser =
  error :: bool
  theme_plugin_expr_mapping :: "(string \<times> expr list) list"

definition init :: SequenceParser where
  "init = \<lparr>error = False, theme_plugin_expr_mapping = []\<rparr>"

text \<open>
  \<open>_archive_error(self)\<close> has no parameter \<open>theme\<close> and the module has no global of
  that name, so each of the two calls \<open>ErrorCollector.archive_..._messages(theme)\<close>
  raises \<open>NameError\<close> when it evaluates its argument; the flag has been set by then.
  The result is the parser object after the call and the exception raised, if any.
\<close>

definition archive_error :: "ErrorCollector \<Rightarrow> SequenceParser \<Rightarrow> SequenceParser \<times> error option" where
  "archive_error ec self =
     (if lex_error ec then (self\<lparr>error := True\<rparr>, Some (NameError ''theme''))
      else if yacc_error ec then (self\<lparr>error := True\<rparr>, Some (NameError ''theme''))
      else (self, None))"

text \<open>
  \<open>analyze(self, theme, text)\<close>. The PLY parser is not part of the sources at hand and
  is a parameter: it maps the text to the raw expressions and the collector's flags.
  A dictionary keeps its keys in insertion order, and assigning to a key that is
  present keeps its place: \<open>AList.update\<close>.
\<close>

definition analyze ::
  "(string \<Rightarrow> string PluginExpr list \<times> ErrorCollector) \<Rightarrow> string \<Rightarrow> string \<Rightarrow>
     SequenceParser \<Rightarrow> SequenceParser \<times> error option" where
  "analyze parse theme text self =
     (case parse text of (exprs, ec) \<Rightarrow>
        (case archive_error ec self of
           (self1, Some err) \<Rightarrow> (self1, Some err)
         | (self1, None) \<Rightarrow>
           (case replace_with_plugin_index theme exprs of
              Inl err \<Rightarrow> (self1, Some err)
            | Inr processed_exprs \<Rightarrow>
                (self1\<lparr>theme_plugin_expr_mapping :=
                    AList.update theme processed_exprs (theme_plugin_expr_mapping self1)\<rparr>,
                 None))))"

section \<open>The sequencing algorithm (\<open>_Algorithm\<close>)\<close>

text \<open>\<open>_Algorithm.__init__\<close>: the expression lists of all namespaces, one after another.\<close>

definition Algorithm_init :: "expr list list \<Rightarrow> expr list" where
  "Algorithm_init exprs = concat exprs"

text \<open>
  \<open>_remove_irrelevant_exprs\<close>: the loop runs over a copy of the list;
  \<open>list.remove\<close> deletes the first equal element. The result is the working list
  that is left and the list of irrelevant expressions.
\<close>

definition remove_irrelevant_exprs :: "expr list \<Rightarrow> expr list \<times> expr list" where
  "remove_irrelevant_exprs exprs =
     (fold (\<lambda>e acc. if relation e = None then remove1 e acc else acc) exprs exprs,
      filter (\<lambda>e. relation e = None) exprs)"

text \<open>
  \<open>_transform_to_left_rel\<close>. Reading \<open>is_left_rel\<close> of an absent relation raises
  \<open>AttributeError\<close>. Every expression owns its relation object (the parser builds one
  for each expression), so the update in place is an update of the expression.
\<close>

fun transform_to_left_rel :: "expr list \<Rightarrow> error + expr list" where
  "transform_to_left_rel [] = Inr []"
| "transform_to_left_rel (e # es) =
     (case relation e of
        None \<Rightarrow> Inl AttributeError
      | Some rel \<Rightarrow>
        (case transform_to_left_rel es of
           Inl err \<Rightarrow> Inl err
         | Inr es' \<Rightarrow>
             Inr ((if is_left_rel rel then e
                   else \<lparr>left_operand = right_operand e, right_operand = left_operand e,
                         relation = Some (rel\<lparr>is_left_rel := True\<rparr>)\<rparr>) # es')))"

text \<open>\<open>_yield_group\<close>: cut the sorted list into runs with the same operand.\<close>

function yield_group :: "expr list \<Rightarrow> (expr \<Rightarrow> PluginIndex) \<Rightarrow> expr list list" where
  "yield_group [] op_name = []"
| "yield_group (e # es) op_name =
     (e # takeWhile (\<lambda>x. op_name e = op_name x) es)
       # yield_group (dropWhile (\<lambda>x. op_name e = op_name x) es) op_name"
  by pat_completeness auto
termination
  by (relation "measure (\<lambda>(es, op_name). length es)")
     (auto simp: less_Suc_eq_le length_dropWhile_le)

text \<open>
  The sort keys \<open>(hash(x.left_operand), x.relation.degree)\<close>. Both generators
  raise \<open>AttributeError\<close> when a relation is absent, so the key's degree is read only
  from a relation that is there.
\<close>

definition rel_degree :: "expr \<Rightarrow> int" where
  "rel_degree x = (case relation x of None \<Rightarrow> 0 | Some rel \<Rightarrow> degree rel)"

definition cmp_key_left :: "runtime \<Rightarrow> expr \<Rightarrow> int \<times> int" where
  "cmp_key_left rt x = (py_hash rt (left_operand x), rel_degree x)"

definition cmp_key_right :: "runtime \<Rightarrow> expr \<Rightarrow> int \<times> int" where
  "cmp_key_right rt x = (py_hash rt (right_operand x), rel_degree x)"

text \<open>
  \<open>sorted(xs, key=k)\<close> is a stable ascending sort, and \<open>sorted(xs, key=k, reverse=True)\<close>
  a descending one that also keeps equal keys in their original order.
\<close>

definition sorted_py :: "('a \<Rightarrow> int \<times> int) \<Rightarrow> bool \<Rightarrow> 'a list \<Rightarrow> 'a list" where
  "sorted_py key reverse xs = (if reverse then rev (sort_key key (rev xs)) else sort_key key xs)"

definition generate_left_relation_group :: "runtime \<Rightarrow> expr list \<Rightarrow> error + expr list list" where
  "generate_left_relation_group rt exprs =
     (if list_ex (\<lambda>e. relation e = None) exprs then Inl AttributeError
      else Inr (yield_group (sorted_py (cmp_key_left rt) False exprs) left_operand))"

definition generate_right_relation_group :: "runtime \<Rightarrow> expr list \<Rightarrow> error + expr list list" where
  "generate_right_relation_group rt exprs =
     (if list_ex (\<lambda>e. relation e = None) exprs then Inl AttributeError
      else Inr (yield_group (sorted_py (cmp_key_right rt) True exprs) right_operand))"

definition special_rel :: PluginRel where
  "special_rel = \<lparr>is_left_rel = True, degree = SPECIAL_DEGREE\<rparr>"

text \<open>The loop of \<open>_break_relation_group\<close>: one expression for each two neighbours.\<close>

fun combine :: "PluginIndex list \<Rightarrow> expr list" where
  "combine (a # b # rest) =
     \<lparr>left_operand = a, right_operand = b, relation = Some special_rel\<rparr> # combine (b # rest)"
| "combine [a] = []"
| "combine [] = []"

text \<open>
  \<open>relation_group[special_index]\<close>: an index below zero is taken from the end of
  the list, and an index outside the list raises \<open>IndexError\<close>.
\<close>

definition py_index :: "'a list \<Rightarrow> int \<Rightarrow> error + 'a" where
  "py_index xs i =
     (if 0 \<le> i \<and> i < int (length xs) then Inr (xs ! nat i)
      else if i < 0 \<and> - int (length xs) \<le> i then Inr (xs ! nat (int (length xs) + i))
      else Inl IndexError)"

definition break_relation_group ::
  "expr list \<Rightarrow> (expr \<Rightarrow> PluginIndex) \<Rightarrow> int \<Rightarrow> error + expr list" where
  "break_relation_group relation_group op_name special_index =
     (let new_group = combine (map op_name relation_group) in
      case py_index relation_group special_index of
        Inl err \<Rightarrow> Inl err
      | Inr special_expr \<Rightarrow>
         (let new_expr = \<lparr>left_operand = left_operand special_expr,
                          right_operand = right_operand special_expr,
                          relation = Some special_rel\<rparr>
          in if special_index = 0 then Inr (new_expr # new_group)
             else if special_index = - 1 then Inr (new_group @ [new_expr])
             else Inl SyntaxError_Special))"

definition break_left_relation_group :: "expr list \<Rightarrow> error + expr list" where
  "break_left_relation_group relation_group =
     break_relation_group relation_group right_operand 0"

definition break_right_relation_group :: "expr list \<Rightarrow> error + expr list" where
  "break_right_relation_group relation_group =
     break_relation_group relation_group left_operand (- 1)"

text \<open>The two \<open>for relation_group in ...: new_relations.extend(...)\<close> loops.\<close>

fun extend_groups :: "(expr list \<Rightarrow> error + expr list) \<Rightarrow> expr list list \<Rightarrow> error + expr list" where
  "extend_groups brk [] = Inr []"
| "extend_groups brk (g # gs) =
     (case brk g of
        Inl err \<Rightarrow> Inl err
      | Inr new_group \<Rightarrow>
        (case extend_groups brk gs of
           Inl err \<Rightarrow> Inl err
         | Inr rest \<Rightarrow> Inr (new_group @ rest)))"

definition new_relations :: "runtime \<Rightarrow> expr list \<Rightarrow> error + expr list" where
  "new_relations rt exprs =
     (case generate_left_relation_group rt exprs of
        Inl err \<Rightarrow> Inl err
      | Inr left_groups \<Rightarrow>
        (case extend_groups break_left_relation_group left_groups of
           Inl err \<Rightarrow> Inl err
         | Inr left_rels \<Rightarrow>
           (case generate_right_relation_group rt exprs of
              Inl err \<Rightarrow> Inl err
            | Inr right_groups \<Rightarrow>
              (case extend_groups break_right_relation_group right_groups of
                 Inl err \<Rightarrow> Inl err
               | Inr right_rels \<Rightarrow> Inr (left_rels @ right_rels)))))"

text \<open>
  Dictionaries (\<open>defaultdict\<close>) are association lists in insertion order, read with the
  default of the dictionary; sets are lists of distinct elements.
\<close>

definition dict_get :: "('k \<times> 'v) list \<Rightarrow> 'k \<Rightarrow> 'v \<Rightarrow> 'v" where
  "dict_get d k dflt = (case map_of d k of None \<Rightarrow> dflt | Some v \<Rightarrow> v)"

definition set_add :: "'a \<Rightarrow> 'a list \<Rightarrow> 'a list" where
  "set_add x s = (if x \<in> set s then s else s @ [x])"

definition py_set :: "'a list \<Rightarrow> 'a list" where
  "py_set xs = fold set_add xs []"

text \<open>
  The body of \<open>for expr in relations\<close>:
  \<open>left_hand_side[expr.left_operand].append(expr.right_operand)\<close> and
  \<open>right_hand_side[expr.right_operand] += 1\<close>.
\<close>

definition add_relation :: "expr \<Rightarrow> lhs_dict \<times> rhs_dict \<Rightarrow> lhs_dict \<times> rhs_dict" where
  "add_relation e d =
     (AList.update (left_operand e)
        (dict_get (fst d) (left_operand e) [] @ [right_operand e]) (fst d),
      AList.update (right_operand e)
        (dict_get (snd d) (right_operand e) 0 + 1) (snd d))"

text \<open>
  The body of \<open>for right_op in left_hand_side[item]\<close>:
  \<open>right_hand_side[right_op] -= 1\<close>, and the entry is deleted when it is zero.
\<close>

definition decrease :: "PluginIndex \<Rightarrow> rhs_dict \<Rightarrow> rhs_dict" where
  "decrease right_op rhs =
     (let n = dict_get rhs right_op 0 - 1;
          rhs1 = AList.update right_op n rhs
      in if n = 0 then AList.delete right_op rhs1 else rhs1)"

text \<open>\<open>set.pop()\<close> on a set that is not empty (the caller has checked).\<close>

definition set_pop :: "runtime \<Rightarrow> PluginIndex list \<Rightarrow> PluginIndex" where
  "set_pop rt s = s ! (pop_slot rt s mod length s)"

definition unique_items :: "lhs_dict \<Rightarrow> rhs_dict \<Rightarrow> PluginIndex list" where
  "unique_items lhs rhs = filter (\<lambda>k. k \<notin> set (map fst rhs)) (map fst lhs)"

lemma set_pop_member: "s \<noteq> [] \<Longrightarrow> set_pop rt s \<in> set s"
  by (simp add: set_pop_def)

lemma length_delete_less:
  "k \<in> set (map fst d) \<Longrightarrow> length (AList.delete k d) < length d"
proof -
  assume "k \<in> set (map fst d)"
  then obtain v where "(k, v) \<in> set d" by auto
  then have "length (filter (\<lambda>(k', _). k \<noteq> k') d) < length d"
    by (intro length_filter_less[of "(k, v)"]) auto
  then show ?thesis by (simp add: AList.delete_eq)
qed

lemma unique_items_subset: "set (unique_items lhs rhs) \<subseteq> set (map fst lhs)"
  by (auto simp: unique_items_def)

text \<open>The \<open>while left_hand_side\<close> loop.\<close>

function order_loop ::
  "runtime \<Rightarrow> lhs_dict \<Rightarrow> rhs_dict \<Rightarrow> PluginIndex list \<Rightarrow> error + PluginIndex list" where
  "order_loop rt lhs rhs order =
     (if lhs = [] then Inr order
      else if unique_items lhs rhs = [] then Inl (SyntaxError_Order lhs rhs)
      else (let item = set_pop rt (unique_items lhs rhs)
            in order_loop rt (AList.delete item lhs)
                 (fold decrease (dict_get lhs item []) rhs) (order @ [item])))"
  by pat_completeness auto
termination
proof (relation "measure (\<lambda>(rt, lhs, rhs, order). length lhs)", goal_cases)
  case 1
  show ?case by simp
next
  case (2 rt lhs rhs order item)
  then have "item \<in> set (unique_items lhs rhs)"
    by (simp add: set_pop_member)
  then have "item \<in> set (map fst lhs)"
    using unique_items_subset by blast
  then show ?case
    by (simp add: length_delete_less)
qed

declare order_loop.simps [simp del]

text \<open>Iterating over a set (\<open>order.extend(left_behind)\<close>).\<close>

function set_iter :: "runtime \<Rightarrow> PluginIndex list \<Rightarrow> PluginIndex list" where
  "set_iter rt s =
     (if s = [] then []
      else (let x = s ! (iter_slot rt s mod length s) in x # set_iter rt (remove1 x s)))"
  by pat_completeness auto
termination
  by (relation "measure (\<lambda>(rt, s). length s)") (auto simp: length_remove1)

declare set_iter.simps [simp del]

definition is_head_or_tail :: "PluginIndex \<Rightarrow> bool" where
  "is_head_or_tail index =
     (theme_name index = None \<and> (plugin_name index = HEAD \<or> plugin_name index = TAIL))"

definition generate_execution_order ::
  "runtime \<Rightarrow> expr list \<Rightarrow> expr list \<Rightarrow> error + PluginIndex list" where
  "generate_execution_order rt relations irrelevant_exprs =
     (let left_behind0 = py_set (map left_operand irrelevant_exprs);
          d = fold add_relation relations ([], []);
          items_only_in_right_hand_side =
            filter (\<lambda>k. k \<notin> set (map fst (fst d))) (map fst (snd d));
          left_behind = fold set_add items_only_in_right_hand_side left_behind0
      in case order_loop rt (fst d) (snd d) [] of
           Inl err \<Rightarrow> Inl err
         | Inr order0 \<Rightarrow>
            (let order = order0 @ set_iter rt left_behind
             in Inr (fold (\<lambda>index acc. if is_head_or_tail index then remove1 index acc else acc)
                       order order)))"

text \<open>\<open>_Algorithm.generate_sequence\<close>, on the list \<open>self._exprs\<close>.\<close>

definition generate_sequence :: "runtime \<Rightarrow> expr list \<Rightarrow> error + PluginIndex list" where
  "generate_sequence rt exprs =
     (case remove_irrelevant_exprs exprs of
        (exprs1, irrelevant_exprs) \<Rightarrow>
          (case transform_to_left_rel exprs1 of
             Inl err \<Rightarrow> Inl err
           | Inr exprs2 \<Rightarrow>
             (case new_relations rt exprs2 of
                Inl err \<Rightarrow> Inl err
              | Inr rels \<Rightarrow> generate_execution_order rt rels irrelevant_exprs)))"

text \<open>\<open>SequenceParser.generate_sequence\<close>.\<close>

definition SequenceParser_generate_sequence ::
  "runtime \<Rightarrow> SequenceParser \<Rightarrow> error + PluginIndex list" where
  "SequenceParser_generate_sequence rt self =
     generate_sequence rt (Algorithm_init (map snd (theme_plugin_expr_mapping self)))"

section \<open>Notions of the specification\<close>

text \<open>
  What an expression says, in the words of the module's documentation:
  \<open>x <<p y\<close> puts \<open>x\<close> before \<open>y\<close> with degree \<open>p\<close>, and \<open>x p>> y\<close> puts
  \<open>y\<close> before \<open>x\<close>. The triple is (earlier, later, degree).
\<close>

definition precedence :: "expr \<Rightarrow> PluginIndex \<times> PluginIndex \<times> int" where
  "precedence e =
     (case relation e of
        None \<Rightarrow> (left_operand e, right_operand e, 0)
      | Some rel \<Rightarrow>
          if is_left_rel rel then (left_operand e, right_operand e, degree rel)
          else (right_operand e, left_operand e, degree rel))"

text \<open>Forward form: the relation is there and is marked left-directed.\<close>

definition forward_form :: "expr \<Rightarrow> bool" where
  "forward_form e = (case relation e of None \<Rightarrow> False | Some rel \<Rightarrow> is_left_rel rel)"

text \<open>An operand with more than one namespace separator.\<close>

definition bad_operand :: "string \<Rightarrow> bool" where
  "bad_operand operand = (1 < count_list operand (CHR ''.''))"


text \<open>
  The edges of a list of relations, and what it means for them to contain a cycle:
  some identity reaches itself along one or more edges.
\<close>

definition edges :: "expr list \<Rightarrow> (PluginIndex \<times> PluginIndex) set" where
  "edges rels = set (map (\<lambda>e. (left_operand e, right_operand e)) rels)"

definition on_cycle :: "expr list \<Rightarrow> PluginIndex \<Rightarrow> bool" where
  "on_cycle rels x = ((x, x) \<in> (edges rels)\<^sup>+)"

text \<open>
  The relations that \<open>generate_sequence\<close> hands to \<open>_generate_execution_order\<close>: the
  merged edges of the batch (none when an earlier step raised).
\<close>

definition chain_relations :: "runtime \<Rightarrow> expr list \<Rightarrow> expr list" where
  "chain_relations rt exprs =
     (case transform_to_left_rel (fst (remove_irrelevant_exprs exprs)) of
        Inl err \<Rightarrow> []
      | Inr exprs2 \<Rightarrow> (case new_relations rt exprs2 of Inl err \<Rightarrow> [] | Inr rels \<Rightarrow> rels))"

text \<open>
  The edges held by the dictionary \<open>left_hand_side\<close>, the number of them that end in
  an identity, and the loop's invariant: keys are stored once, no stored count is zero,
  and the count of \<open>right_hand_side\<close> for an identity (zero when it is no key) is the
  number of edges that end in it.
\<close>

definition dict_edges :: "lhs_dict \<Rightarrow> (PluginIndex \<times> PluginIndex) set" where
  "dict_edges lhs = {(k, v). \<exists>vs. (k, vs) \<in> set lhs \<and> v \<in> set vs}"

definition in_count :: "lhs_dict \<Rightarrow> PluginIndex \<Rightarrow> nat" where
  "in_count lhs y = sum_list (map (\<lambda>kv. count_list (snd kv) y) lhs)"

definition consistent :: "lhs_dict \<Rightarrow> rhs_dict \<Rightarrow> bool" where
  "consistent lhs rhs =
     (distinct (map fst lhs) \<and> 0 \<notin> snd ` set rhs \<and>
      (\<forall>y. dict_get rhs y 0 = int (in_count lhs y)))"

text \<open>
  Two interpreters for the examples. They differ in the hash only: the first hashes an
  identity to the length of its name, the second to the negated length.
\<close>

definition sample_runtime :: runtime where
  "sample_runtime =
     \<lparr>py_hash = (\<lambda>index. int (length (plugin_name index))),
      pop_slot = (\<lambda>s. 0), iter_slot = (\<lambda>s. 0)\<rparr>"

definition other_runtime :: runtime where
  "other_runtime =
     \<lparr>py_hash = (\<lambda>index. - int (length (plugin_name index))),
      pop_slot = (\<lambda>s. 0), iter_slot = (\<lambda>s. 0)\<rparr>"

text \<open>A parser result without lexical or syntax errors, for the examples.\<close>

definition clean :: ErrorCollector where
  "clean = \<lparr>lex_error = False, yacc_error = False\<rparr>"

definition forward :: "'a \<Rightarrow> int \<Rightarrow> 'a \<Rightarrow> 'a PluginExpr" where
  "forward x p y =
     \<lparr>left_operand = x, right_operand = y, relation = Some \<lparr>is_left_rel = True, degree = p\<rparr>\<rparr>"

definition backward :: "'a \<Rightarrow> int \<Rightarrow> 'a \<Rightarrow> 'a PluginExpr" where
  "backward x p y =
     \<lparr>left_operand = x, right_operand = y, relation = Some \<lparr>is_left_rel = False, degree = p\<rparr>\<rparr>"

definition bare :: "'a \<Rightarrow> 'a \<Rightarrow> 'a PluginExpr" where
  "bare x y = \<lparr>left_operand = x, right_operand = y, relation = None\<rparr>"

text \<open>
  The namespace \<open>t\<close> is analysed with \<open>a << b\<close> and then with \<open>c\<close>, after another
  namespace \<open>u\<close> was stored: \<open>t\<close> holds the second call's expression only.
\<close>

definition sample_parse :: "string \<Rightarrow> string PluginExpr list \<times> ErrorCollector" where
  "sample_parse text =
     (if text = ''a << b'' then ([forward ''a'' 0 ''b''], clean) else ([bare ''c'' TAIL], clean))"

definition sample_parser :: SequenceParser where
  "sample_parser =
     \<lparr>error = False,
      theme_plugin_expr_mapping =
        [(''u'', [bare (PluginIndex (Some ''u'') ''x'') (PluginIndex None TAIL)])]\<rparr>"

text \<open>
  Parser results for the examples: one directive and a reported illegal character, and
  Scenario A.
\<close>

definition lex_error_parse :: "string \<Rightarrow> string PluginExpr list \<times> ErrorCollector" where
  "lex_error_parse text = ([forward ''a'' 0 ''b''], \<lparr>lex_error = True, yacc_error = False\<rparr>)"

text \<open>
  Modelled from the spec: the parser on a text whose first line has an operand with two
  dots and whose second line is \<open>e << f\<close>. An operand is an identifier with at most
  one dotted part, so the second dot is an unrecognized character (a lexical
  diagnostic, the character skipped) and the identifier after it an unexpected token
  (a syntax diagnostic, the line discarded); the second line parses.
\<close>

definition two_dot_text :: string where
  "two_dot_text = ''a.b.c << d'' @ [CHR 0x0A] @ ''e << f''"

definition two_dot_parse :: "string \<Rightarrow> string PluginExpr list \<times> ErrorCollector" where
  "two_dot_parse text = ([forward ''e'' 0 ''f''], \<lparr>lex_error = True, yacc_error = True\<rparr>)"

definition scenario_A_parse :: "string \<Rightarrow> string PluginExpr list \<times> ErrorCollector" where
  "scenario_A_parse text =
     ([forward ''loader_a'' 0 ''loader_b'', forward ''loader_c'' 1 ''loader_b''], clean)"

text \<open>
  The relation groups as they are when no two operands share a hash: the expressions
  with the anchor \<open>x\<close>, by ascending degree for a left anchor and by descending degree
  for a right anchor, expressions of one degree in the order of the batch.
\<close>

definition left_group :: "expr list \<Rightarrow> PluginIndex \<Rightarrow> expr list" where
  "left_group es x = sort_key rel_degree (filter (\<lambda>e. x = left_operand e) es)"

definition right_group :: "expr list \<Rightarrow> PluginIndex \<Rightarrow> expr list" where
  "right_group es y = rev (sort_key rel_degree (filter (\<lambda>e. y = right_operand e) (rev es)))"




text \<open>
  An interpreter under which all identities share one hash, and a batch in which the
  two directives with the left operand \<open>x\<close> are apart: \<open>x <<0 aa\<close>,
  \<open>yyyy <<0 ccccc\<close>, \<open>x <<1 bbb\<close>, \<open>bbb <<0 aa\<close>.
\<close>

definition constant_runtime :: runtime where
  "constant_runtime =
     \<lparr>py_hash = (\<lambda>index. 0), pop_slot = (\<lambda>s. 0), iter_slot = (\<lambda>s. 0)\<rparr>"

definition split_group :: "expr list" where
  "split_group =
     [forward (PluginIndex (Some ''t'') ''x'') 0 (PluginIndex (Some ''t'') ''aa''),
      forward (PluginIndex (Some ''t'') ''yyyy'') 0 (PluginIndex (Some ''t'') ''ccccc''),
      forward (PluginIndex (Some ''t'') ''x'') 1 (PluginIndex (Some ''t'') ''bbb''),
      forward (PluginIndex (Some ''t'') ''bbb'') 0 (PluginIndex (Some ''t'') ''aa'')]"


section \<open>Evaluation\<close>

lemmas eval_defs = generate_sequence_def remove_irrelevant_exprs_def new_relations_def
  generate_left_relation_group_def generate_right_relation_group_def sorted_py_def
  cmp_key_left_def cmp_key_right_def rel_degree_def break_left_relation_group_def
  break_right_relation_group_def break_relation_group_def py_index_def special_rel_def
  generate_execution_order_def py_set_def set_add_def add_relation_def dict_get_def
  order_loop.simps unique_items_def set_pop_def decrease_def
  is_head_or_tail_def HEAD_def TAIL_def Let_def SPECIAL_DEGREE_def
  forward_def backward_def bare_def

lemmas analyze_defs = analyze_def archive_error_def get_theme_plugin_def HEAD_def TAIL_def
  init_def clean_def forward_def backward_def bare_def

lemma set_iter_single: "set_iter rt [x] = [x]"
  by (simp add: set_iter.simps[of rt "[x]"] set_iter.simps[of rt "[]"])

lemma set_iter_two: "set_iter rt [a, b] = [a, b] \<or> set_iter rt [a, b] = [b, a]"
proof -
  define k where "k = iter_slot rt [a, b] mod length [a, b]"
  have "k < Suc (Suc 0)"
    unfolding k_def by (simp only: list.size) simp
  then consider "k = 0" | "k = Suc 0"
    by linarith
  then show ?thesis
  proof cases
    case 1
    then have "set_iter rt [a, b] = a # set_iter rt [b]"
      unfolding k_def
      by (subst set_iter.simps) (simp only: Let_def nth_Cons_0 remove1.simps list.simps if_True if_False simp_thms)
    then show ?thesis by (simp add: set_iter_single)
  next
    case 2
    then have "set_iter rt [a, b] = b # set_iter rt (remove1 b [a, b])"
      unfolding k_def
      by (subst set_iter.simps) (simp only: Let_def nth_Cons_0 nth_Cons_Suc list.simps if_False simp_thms)
    then show ?thesis by (auto simp: set_iter_single)
  qed
qed

section \<open>Qualification and the parser object\<close>

lemma length_split_dot: "length (split_dot s) = Suc (count_list s (CHR ''.''))"
  by (induction s) (auto split: list.splits)

lemma get_theme_plugin_Inl:
  assumes "get_theme_plugin theme operand = Inl err"
  shows "err = SyntaxError_Operand operand \<and> bad_operand operand"
proof -
  have "length (split_dot operand) = Suc (count_list operand (CHR ''.''))"
    by (rule length_split_dot)
  with assms show ?thesis
    by (auto simp: get_theme_plugin_def bad_operand_def split: if_splits list.splits)
qed

lemma get_theme_plugin_bad:
  assumes "bad_operand operand"
  shows "get_theme_plugin theme operand = Inl (SyntaxError_Operand operand)"
proof -
  have l: "length (split_dot operand) = Suc (count_list operand (CHR ''.''))"
    by (rule length_split_dot)
  have "operand \<noteq> HEAD" "operand \<noteq> TAIL"
    using assms by (auto simp: HEAD_def TAIL_def bad_operand_def)
  with l assms show ?thesis
    by (auto simp: get_theme_plugin_def bad_operand_def split: list.splits)
qed

lemma replace_with_plugin_index_bad:
  "list_ex (\<lambda>e. bad_operand (left_operand e) \<or> bad_operand (right_operand e)) exprs \<Longrightarrow>
   \<exists>operand. bad_operand operand \<and>
     replace_with_plugin_index theme exprs = Inl (SyntaxError_Operand operand)"
proof (induction exprs)
  case Nil
  then show ?case by simp
next
  case (Cons e es)
  show ?case
  proof (cases "get_theme_plugin theme (left_operand e)")
    case (Inl err)
    then show ?thesis
      using get_theme_plugin_Inl[OF Inl] by auto
  next
    case l: (Inr lp)
    show ?thesis
    proof (cases "get_theme_plugin theme (right_operand e)")
      case (Inl err)
      then show ?thesis
        using get_theme_plugin_Inl[OF Inl] l by (auto split: prod.splits)
    next
      case r: (Inr rp)
      have "\<not> bad_operand (left_operand e)" "\<not> bad_operand (right_operand e)"
        using l r get_theme_plugin_bad by auto
      with Cons.prems
      have "list_ex (\<lambda>e. bad_operand (left_operand e) \<or> bad_operand (right_operand e)) es"
        by simp
      from Cons.IH[OF this] l r show ?thesis
        by (auto split: prod.splits)
    qed
  qed
qed

lemma analyze_flag_NameError:
  "lex_error (snd (parse text)) \<or> yacc_error (snd (parse text)) \<Longrightarrow>
   analyze parse theme text self = (self\<lparr>error := True\<rparr>, Some (NameError ''theme''))"
  by (auto simp: analyze_def archive_error_def split: prod.splits)

text \<open>
  Claim C6. The claim: a namespace text with a lexical or syntax error does not abort
  \<open>analyze\<close>; the flag is set, the diagnostic recorded, and qualification completes.
  The code sets the flag and then raises \<open>NameError\<close>, because \<open>_archive_error\<close>
  passes the undefined name \<open>theme\<close>: here the parser reports an illegal character
  in a text whose one directive parsed, and \<open>analyze\<close> ends with the exception, the
  expression never stored.
\<close>

theorem analyze_lex_error_raises:
  "analyze lex_error_parse ''pre_load'' ''a << b $'' init =
   (\<lparr>error = True, theme_plugin_expr_mapping = []\<rparr>, Some (NameError ''theme''))"
  by (simp add: analyze_defs lex_error_parse_def)

text \<open>
  Claim C7. The claim: an operand with more than one dot costs its own expression only;
  the other expressions of the namespace are still qualified and kept. On the text
  with the lines \<open>a.b.c << d\<close> and \<open>e << f\<close> the qualification of what the parser
  kept would return \<open>e << f\<close>, but \<open>analyze\<close> never reaches it: the parser has
  reported the malformed line, \<open>_archive_error\<close> raises \<open>NameError\<close> on the
  undefined name \<open>theme\<close>, and nothing is stored for the namespace.
\<close>

theorem two_dot_operand_loses_namespace:
  "replace_with_plugin_index ''t'' (fst (two_dot_parse two_dot_text)) =
     Inr [forward (PluginIndex (Some ''t'') ''e'') 0 (PluginIndex (Some ''t'') ''f'')] \<and>
   analyze two_dot_parse ''t'' two_dot_text init =
     (\<lparr>error = True, theme_plugin_expr_mapping = []\<rparr>, Some (NameError ''theme'')) \<and>
   map_of (theme_plugin_expr_mapping (fst (analyze two_dot_parse ''t'' two_dot_text init)))
     ''t'' = None"
  by (simp add: analyze_defs two_dot_parse_def)

text \<open>
  Claim C10. When two calls of \<open>analyze\<close> with the same namespace label return, the
  namespace's stored list is the qualified expressions of the second text alone, and
  the stored list of every other namespace is the one from before the first call: the
  entries of the other namespaces, in their order, are unchanged by the two calls.
  The second call also keeps the order of all namespaces, and the two calls keep the
  had-errors flag.
\<close>

theorem analyze_replaces_namespace:
  assumes "analyze parse theme text1 self = (self1, None)"
    and "analyze parse theme text2 self1 = (self2, None)"
  shows "\<exists>exprs2. replace_with_plugin_index theme (fst (parse text2)) = Inr exprs2 \<and>
           map_of (theme_plugin_expr_mapping self2) theme = Some exprs2 \<and>
           (\<forall>other. other \<noteq> theme \<longrightarrow>
              map_of (theme_plugin_expr_mapping self2) other =
              map_of (theme_plugin_expr_mapping self) other) \<and>
           AList.delete theme (theme_plugin_expr_mapping self2) =
             AList.delete theme (theme_plugin_expr_mapping self) \<and>
           map fst (theme_plugin_expr_mapping self2) =
             map fst (theme_plugin_expr_mapping self1) \<and>
           error self2 = error self"
proof -
  from assms(1) obtain exprs1 where
    s1: "theme_plugin_expr_mapping self1 =
          AList.update theme exprs1 (theme_plugin_expr_mapping self)"
    and e1: "error self1 = error self"
    by (auto simp: analyze_def archive_error_def split: prod.splits if_splits sum.splits)
  from assms(2) obtain exprs2 where
    r: "replace_with_plugin_index theme (fst (parse text2)) = Inr exprs2" and
    s2: "theme_plugin_expr_mapping self2 =
          AList.update theme exprs2 (theme_plugin_expr_mapping self1)"
    and e2: "error self2 = error self1"
    by (auto simp: analyze_def archive_error_def split: prod.splits if_splits sum.splits)
  have "map_of (theme_plugin_expr_mapping self2) theme = Some exprs2"
    by (simp add: s2 AList.update_conv')
  moreover have "map_of (theme_plugin_expr_mapping self2) other =
      map_of (theme_plugin_expr_mapping self) other" if "other \<noteq> theme" for other
    using that by (simp add: s1 s2 AList.update_conv')
  moreover have "AList.delete theme (theme_plugin_expr_mapping self2) =
      AList.delete theme (theme_plugin_expr_mapping self)"
    by (simp add: s1 s2 AList.delete_update_same)
  moreover have "map fst (theme_plugin_expr_mapping self2) =
      map fst (theme_plugin_expr_mapping self1)"
    by (simp add: s1 s2 AList.update_keys)
  ultimately show ?thesis
    using r e1 e2 by auto
qed

theorem analyze_replaces_namespace_witness:
  "map_of (theme_plugin_expr_mapping
      (fst (analyze sample_parse ''t'' ''c''
         (fst (analyze sample_parse ''t'' ''a << b'' sample_parser))))) ''t'' =
     Some [bare (PluginIndex (Some ''t'') ''c'') (PluginIndex None TAIL)] \<and>
   map_of (theme_plugin_expr_mapping
      (fst (analyze sample_parse ''t'' ''c''
         (fst (analyze sample_parse ''t'' ''a << b'' sample_parser))))) ''u'' =
     Some [bare (PluginIndex (Some ''u'') ''x'') (PluginIndex None TAIL)] \<and>
   AList.delete ''t'' (theme_plugin_expr_mapping
      (fst (analyze sample_parse ''t'' ''c''
         (fst (analyze sample_parse ''t'' ''a << b'' sample_parser))))) =
     [(''u'', [bare (PluginIndex (Some ''u'') ''x'') (PluginIndex None TAIL)])]"
proof -
  let ?s1 = "fst (analyze sample_parse ''t'' ''a << b'' sample_parser)"
  let ?s2 = "fst (analyze sample_parse ''t'' ''c'' ?s1)"
  have 1: "analyze sample_parse ''t'' ''a << b'' sample_parser = (?s1, None)"
    by (simp add: analyze_defs sample_parse_def sample_parser_def)
  have 2: "analyze sample_parse ''t'' ''c'' ?s1 = (?s2, None)"
    by (simp add: analyze_defs sample_parse_def sample_parser_def)
  have 3: "theme_plugin_expr_mapping sample_parser =
     [(''u'', [bare (PluginIndex (Some ''u'') ''x'') (PluginIndex None TAIL)])]"
    by (simp add: sample_parser_def)
  have 4: "replace_with_plugin_index ''t'' (fst (sample_parse ''c'')) =
     Inr [bare (PluginIndex (Some ''t'') ''c'') (PluginIndex None TAIL)]"
    by (simp add: analyze_defs sample_parse_def)
  from analyze_replaces_namespace[OF 1 2] obtain exprs2 where
    "replace_with_plugin_index ''t'' (fst (sample_parse ''c'')) = Inr exprs2"
    "map_of (theme_plugin_expr_mapping ?s2) ''t'' = Some exprs2"
    "map_of (theme_plugin_expr_mapping ?s2) ''u'' =
       map_of (theme_plugin_expr_mapping sample_parser) ''u''"
    "AList.delete ''t'' (theme_plugin_expr_mapping ?s2) =
       AList.delete ''t'' (theme_plugin_expr_mapping sample_parser)"
    by auto
  then show ?thesis
    using 3 4 by simp
qed

section \<open>Normalization\<close>

lemma filter_remove1_dropped:
  "P x \<Longrightarrow> filter (\<lambda>y. \<not> P y) (remove1 x acc) = filter (\<lambda>y. \<not> P y) acc"
  by (induction acc) auto

lemma fold_remove1_keeps:
  "filter (\<lambda>y. \<not> P y) (fold (\<lambda>x acc. if P x then remove1 x acc else acc) xs acc) =
   filter (\<lambda>y. \<not> P y) acc"
  by (induction xs arbitrary: acc) (auto simp: filter_remove1_dropped)

lemma fold_remove1_mset:
  "mset (fold (\<lambda>x acc. if P x then remove1 x acc else acc) xs acc) =
   mset acc - mset (filter P xs)"
  by (induction xs arbitrary: acc) (auto simp: diff_diff_add)

text \<open>Removing, for each element with \<open>P\<close>, its first equal element leaves the others.\<close>

lemma fold_remove1_eq_filter:
  "fold (\<lambda>x acc. if P x then remove1 x acc else acc) xs xs = filter (\<lambda>y. \<not> P y) xs"
proof -
  let ?r = "fold (\<lambda>x acc. if P x then remove1 x acc else acc) xs xs"
  have "mset xs = mset (filter P xs) + mset (filter (\<lambda>y. \<not> P y) xs)"
    by (induction xs) auto
  then have "mset ?r = mset (filter (\<lambda>y. \<not> P y) xs)"
    by (metis fold_remove1_mset add_diff_cancel_left')
  then have "set ?r = set (filter (\<lambda>y. \<not> P y) xs)"
    by (rule mset_eq_setD)
  then have "filter (\<lambda>y. \<not> P y) ?r = ?r"
    by (auto simp: filter_id_conv)
  then show ?thesis
    by (simp add: fold_remove1_keeps)
qed

lemma remove_irrelevant_exprs_filter:
  "remove_irrelevant_exprs exprs =
     (filter (\<lambda>e. relation e \<noteq> None) exprs, filter (\<lambda>e. relation e = None) exprs)"
  by (simp add: remove_irrelevant_exprs_def fold_remove1_eq_filter)

lemma transform_to_left_rel_append:
  "transform_to_left_rel (xs @ ys) =
     (case transform_to_left_rel xs of
        Inl err \<Rightarrow> Inl err
      | Inr xs' \<Rightarrow>
         (case transform_to_left_rel ys of
            Inl err \<Rightarrow> Inl err
          | Inr ys' \<Rightarrow> Inr (xs' @ ys')))"
  by (induction xs) (auto split: option.splits sum.splits)

lemma transform_to_left_rel_total:
  "list_all (\<lambda>e. relation e \<noteq> None) es \<Longrightarrow>
   \<exists>es'. transform_to_left_rel es = Inr es' \<and> list_all forward_form es' \<and>
     map (\<lambda>e. (left_operand e, right_operand e, rel_degree e)) es' = map precedence es"
proof (induction es)
  case Nil
  then show ?case by simp
next
  case (Cons e es)
  then obtain es' where "transform_to_left_rel es = Inr es'" "list_all forward_form es'"
    "map (\<lambda>e. (left_operand e, right_operand e, rel_degree e)) es' = map precedence es"
    by auto
  moreover obtain rel where rel: "relation e = Some rel"
    using Cons.prems by auto
  moreover define e' where "e' = (if is_left_rel rel then e
     else \<lparr>left_operand = right_operand e, right_operand = left_operand e,
           relation = Some (rel\<lparr>is_left_rel := True\<rparr>)\<rparr>)"
  moreover have "forward_form e'"
    using rel by (simp add: e'_def forward_form_def)
  moreover have "(left_operand e', right_operand e', rel_degree e') = precedence e"
    using rel by (simp add: e'_def precedence_def rel_degree_def)
  ultimately have "transform_to_left_rel (e # es) = Inr (e' # es') \<and>
      list_all forward_form (e' # es') \<and>
      map (\<lambda>e. (left_operand e, right_operand e, rel_degree e)) (e' # es') =
        map precedence (e # es)"
    by simp
  then show ?case by blast
qed

text \<open>
  Claim C9. For every batch, the normalization step (\<open>_remove_irrelevant_exprs\<close>, then
  \<open>_transform_to_left_rel\<close>) returns, and every expression of its result has a
  relation marked left-directed; its left operand, right operand and degree are the
  earlier identity, the later identity and the degree of the expression it comes from,
  in the order of the constrained expressions of the batch.
\<close>

theorem normalization_forward_form:
  "\<exists>es. transform_to_left_rel (fst (remove_irrelevant_exprs exprs)) = Inr es \<and>
     list_all forward_form es \<and>
     map (\<lambda>e. (left_operand e, right_operand e, rel_degree e)) es =
       map precedence (filter (\<lambda>e. relation e \<noteq> None) exprs)"
proof -
  have "list_all (\<lambda>e. relation e \<noteq> None) (filter (\<lambda>e. relation e \<noteq> None) exprs)"
    by (simp add: list_all_iff)
  from transform_to_left_rel_total[OF this] show ?thesis
    by (simp add: remove_irrelevant_exprs_filter)
qed

lemma transform_to_left_rel_swap:
  "transform_to_left_rel (l @ forward a d b # r) =
   transform_to_left_rel (l @ backward b d a # r)"
  by (simp add: transform_to_left_rel_append[of l] forward_def backward_def split: sum.splits)

text \<open>
  Claim C5. For all operands \<open>a\<close> and \<open>b\<close>, every degree \<open>d\<close> and every batch, the
  batch with the directive \<open>a <<d b\<close> and the batch with \<open>b d>> a\<close> in its place give
  the same result of \<open>generate_sequence\<close>.
\<close>

theorem operator_symmetry:
  "generate_sequence rt (xs @ [forward a d b] @ ys) =
   generate_sequence rt (xs @ [backward b d a] @ ys)"
proof -
  let ?rel = "\<lambda>e::expr. relation e \<noteq> None" and ?irr = "\<lambda>e::expr. relation e = None"
  have "filter ?rel (xs @ [forward a d b] @ ys) = filter ?rel xs @ forward a d b # filter ?rel ys"
    and "filter ?rel (xs @ [backward b d a] @ ys) = filter ?rel xs @ backward b d a # filter ?rel ys"
    and "filter ?irr (xs @ [forward a d b] @ ys) = filter ?irr xs @ filter ?irr ys"
    and "filter ?irr (xs @ [backward b d a] @ ys) = filter ?irr xs @ filter ?irr ys"
    by (simp_all add: forward_def backward_def)
  then show ?thesis
    unfolding generate_sequence_def remove_irrelevant_exprs_filter
    by (simp only: prod.case transform_to_left_rel_swap)
qed

section \<open>The execution order\<close>

text \<open>
  Claim C8. For every batch, a sequence returned by \<open>generate_sequence\<close> contains
  neither the HEAD nor the TAIL sentinel.
\<close>

theorem sequence_has_no_sentinel:
  assumes "generate_sequence rt exprs = Inr order"
  shows "list_all (\<lambda>index. \<not> is_head_or_tail index) order"
proof -
  from assms obtain rels irr where
    "generate_execution_order rt rels irr = Inr order"
    by (auto simp: generate_sequence_def split: prod.splits sum.splits)
  then show ?thesis
    by (auto simp: generate_execution_order_def Let_def
        fold_remove1_eq_filter list_all_iff split: sum.splits)
qed

text \<open>The directives \<open>a <<\<close> and \<open>>> b\<close> of one namespace bring in both sentinels.\<close>

theorem sequence_has_no_sentinel_witness:
  "generate_sequence sample_runtime
     [forward (PluginIndex (Some ''t'') ''a'') 0 (PluginIndex None TAIL),
      backward (PluginIndex None HEAD) 0 (PluginIndex (Some ''t'') ''b'')] =
     Inr [PluginIndex (Some ''t'') ''a'', PluginIndex (Some ''t'') ''b''] \<and>
   list_all (\<lambda>index. \<not> is_head_or_tail index)
     [PluginIndex (Some ''t'') ''a'', PluginIndex (Some ''t'') ''b'']"
proof -
  have h: "generate_sequence sample_runtime
     [forward (PluginIndex (Some ''t'') ''a'') 0 (PluginIndex None TAIL),
      backward (PluginIndex None HEAD) 0 (PluginIndex (Some ''t'') ''b'')] =
     Inr [PluginIndex (Some ''t'') ''a'', PluginIndex (Some ''t'') ''b'']"
    by (simp add: eval_defs set_iter.simps sample_runtime_def)
  from sequence_has_no_sentinel[OF h] h show ?thesis
    by blast
qed

lemma scenario_A_algorithm:
  "generate_sequence rt
     [forward (PluginIndex (Some ''pre_load'') ''loader_a'') 0
        (PluginIndex (Some ''pre_load'') ''loader_b''),
      forward (PluginIndex (Some ''pre_load'') ''loader_c'') 1
        (PluginIndex (Some ''pre_load'') ''loader_b'')] =
   Inr [PluginIndex (Some ''pre_load'') ''loader_c'',
        PluginIndex (Some ''pre_load'') ''loader_a'',
        PluginIndex (Some ''pre_load'') ''loader_b'']"
proof (cases "py_hash rt (PluginIndex (Some ''pre_load'') ''loader_a'')
            \<le> py_hash rt (PluginIndex (Some ''pre_load'') ''loader_c'')")
  case True
  then show ?thesis
    by (simp add: eval_defs set_iter_single less_le)
next
  case False
  then show ?thesis
    by (simp add: eval_defs set_iter_single less_le)
qed

text \<open>
  Claim C4. When the text of namespace \<open>pre_load\<close> parses, without errors, to the two
  directives \<open>loader_a <<0 loader_b\<close> and \<open>loader_c <<1 loader_b\<close>, then \<open>analyze\<close>
  returns and \<open>generate_sequence\<close> returns exactly \<open>loader_c\<close>, \<open>loader_a\<close>,
  \<open>loader_b\<close> of \<open>pre_load\<close>, whatever the hash and the set order of the interpreter.
\<close>

theorem scenario_A:
  assumes "parse text =
     ([forward ''loader_a'' 0 ''loader_b'', forward ''loader_c'' 1 ''loader_b''], clean)"
  shows "snd (analyze parse ''pre_load'' text init) = None \<and>
     SequenceParser_generate_sequence rt (fst (analyze parse ''pre_load'' text init)) =
       Inr [PluginIndex (Some ''pre_load'') ''loader_c'',
            PluginIndex (Some ''pre_load'') ''loader_a'',
            PluginIndex (Some ''pre_load'') ''loader_b'']"
proof -
  have "analyze parse ''pre_load'' text init =
     (\<lparr>error = False, theme_plugin_expr_mapping =
        [(''pre_load'',
          [forward (PluginIndex (Some ''pre_load'') ''loader_a'') 0
             (PluginIndex (Some ''pre_load'') ''loader_b''),
           forward (PluginIndex (Some ''pre_load'') ''loader_c'') 1
             (PluginIndex (Some ''pre_load'') ''loader_b'')])]\<rparr>, None)"
    using assms by (simp add: analyze_defs)
  then show ?thesis
    by (simp add: SequenceParser_generate_sequence_def Algorithm_init_def scenario_A_algorithm)
qed

theorem scenario_A_witness:
  "SequenceParser_generate_sequence other_runtime
     (fst (analyze scenario_A_parse
        ''pre_load'' ''loader_a <<0 loader_b; loader_c <<1 loader_b'' init)) =
     Inr [PluginIndex (Some ''pre_load'') ''loader_c'',
          PluginIndex (Some ''pre_load'') ''loader_a'',
          PluginIndex (Some ''pre_load'') ''loader_b'']"
  using scenario_A[of scenario_A_parse
      "''loader_a <<0 loader_b; loader_c <<1 loader_b''" other_runtime]
  by (simp add: scenario_A_parse_def)

text \<open>
  Claim C1. The claim: without a cycle, the sequence holds every identity of the input
  once, also when an identity stands on a bare line and is an operand of a relation.
  The code returns such an identity twice when it is the earlier operand: for the bare
  line \<open>a\<close> (any right operand \<open>r\<close>) and the directive \<open>a << b\<close>, under every
  interpreter, the result is a sequence in which \<open>a\<close> occurs twice.
\<close>

theorem bare_and_left_operand_twice:
  "\<exists>order. generate_sequence rt
       [bare (PluginIndex (Some ''t'') ''a'') r,
        forward (PluginIndex (Some ''t'') ''a'') 0 (PluginIndex (Some ''t'') ''b'')] =
       Inr order \<and>
     count_list order (PluginIndex (Some ''t'') ''a'') = 2"
  using set_iter_two[of rt "PluginIndex (Some ''t'') ''a''" "PluginIndex (Some ''t'') ''b''"]
proof (elim disjE)
  assume "set_iter rt [PluginIndex (Some ''t'') ''a'', PluginIndex (Some ''t'') ''b''] =
    [PluginIndex (Some ''t'') ''a'', PluginIndex (Some ''t'') ''b'']"
  then show ?thesis
    by (simp add: eval_defs)
next
  assume "set_iter rt [PluginIndex (Some ''t'') ''a'', PluginIndex (Some ''t'') ''b''] =
    [PluginIndex (Some ''t'') ''b'', PluginIndex (Some ''t'') ''a'']"
  then show ?thesis
    by (simp add: eval_defs)
qed

section \<open>The chain builder returns\<close>






section \<open>The invariant of the sequencing loop\<close>

lemma set_update_subset: "set (AList.update k v d) \<subseteq> insert (k, v) (set d)"
  by (induction d) auto

lemma set_delete_subset: "set (AList.delete k d) \<subseteq> set d"
  by (auto simp: AList.delete_eq)

lemma dict_get_update:
  "dict_get (AList.update k v d) z dflt = (if z = k then v else dict_get d z dflt)"
  by (simp add: dict_get_def AList.update_conv')

lemma dict_get_delete:
  "dict_get (AList.delete k d) z dflt = (if z = k then dflt else dict_get d z dflt)"
  by (simp add: dict_get_def AList.delete_conv')

lemma dict_get_key:
  "0 \<notin> snd ` set rhs \<Longrightarrow> (dict_get rhs y 0 \<noteq> 0) = (y \<in> set (map fst rhs))"
proof (cases "map_of rhs y")
  case None
  then have "y \<notin> fst ` set rhs"
    by (simp add: map_of_eq_None_iff)
  then show ?thesis
    by (simp add: dict_get_def None)
next
  case (Some v)
  assume nz: "0 \<notin> snd ` set rhs"
  from Some have in_set: "(y, v) \<in> set rhs"
    by (rule map_of_SomeD)
  then have "v \<noteq> 0"
    using nz by force
  moreover have "y \<in> set (map fst rhs)"
    using in_set by force
  ultimately show ?thesis
    using Some by (simp add: dict_get_def)
qed

lemma decrease_get:
  "dict_get (decrease y rhs) z 0 = (if z = y then dict_get rhs y 0 - 1 else dict_get rhs z 0)"
  by (simp add: decrease_def Let_def dict_get_update dict_get_delete)

lemma decrease_nonzero: "0 \<notin> snd ` set rhs \<Longrightarrow> 0 \<notin> snd ` set (decrease y rhs)"
proof -
  assume nz: "0 \<notin> snd ` set rhs"
  let ?n = "dict_get rhs y 0 - 1"
  show ?thesis
  proof (cases "?n = 0")
    case True
    have "set (AList.delete y (AList.update y ?n rhs)) \<subseteq> set rhs"
      by (simp add: AList.delete_update_same set_delete_subset)
    then show ?thesis
      using nz True by (auto simp: decrease_def Let_def)
  next
    case False
    have "set (AList.update y ?n rhs) \<subseteq> insert (y, ?n) (set rhs)"
      by (rule set_update_subset)
    then show ?thesis
      using nz False by (auto simp: decrease_def Let_def)
  qed
qed

lemma fold_decrease_get:
  "dict_get (fold decrease vs rhs) z 0 = dict_get rhs z 0 - int (count_list vs z)"
  by (induction vs arbitrary: rhs) (auto simp: decrease_get)

lemma fold_decrease_nonzero:
  "0 \<notin> snd ` set rhs \<Longrightarrow> 0 \<notin> snd ` set (fold decrease vs rhs)"
  by (induction vs arbitrary: rhs) (auto simp: decrease_nonzero simp del: image_iff)

lemma in_count_delete:
  "distinct (map fst lhs) \<Longrightarrow> map_of lhs k = Some vs \<Longrightarrow>
   in_count lhs y = count_list vs y + in_count (AList.delete k lhs) y"
proof (induction lhs)
  case Nil
  then show ?case by simp
next
  case (Cons p lhs)
  show ?case
  proof (cases "fst p = k")
    case True
    then have "k \<notin> fst ` set lhs"
      using Cons.prems(1) by auto
    then have "AList.delete k lhs = lhs"
      by (rule AList.delete_id)
    moreover have "snd p = vs"
      using True Cons.prems(2) by (cases p) simp
    ultimately show ?thesis
      using True by (cases p) (simp add: in_count_def)
  next
    case False
    then have "map_of lhs k = Some vs"
      using Cons.prems(2) by (cases p) (simp split: if_splits)
    moreover have "distinct (map fst lhs)"
      using Cons.prems(1) by simp
    ultimately have "in_count lhs y = count_list vs y + in_count (AList.delete k lhs) y"
      by (rule Cons.IH[rotated])
    then show ?thesis
      using False by (cases p) (simp add: in_count_def)
  qed
qed

lemma in_count_edge: "(0 < in_count lhs y) = (\<exists>k. (k, y) \<in> dict_edges lhs)"
proof (induction lhs)
  case Nil
  then show ?case by (simp add: in_count_def dict_edges_def)
next
  case (Cons p lhs)
  have "in_count (p # lhs) y = count_list (snd p) y + in_count lhs y"
    by (simp add: in_count_def)
  moreover have "(\<exists>k. (k, y) \<in> dict_edges (p # lhs)) =
      (y \<in> set (snd p) \<or> (\<exists>k. (k, y) \<in> dict_edges lhs))"
    by (cases p) (auto simp: dict_edges_def)
  moreover have "(0 < count_list (snd p) y) = (y \<in> set (snd p))"
    by (simp add: count_list_0_iff zero_less_iff_neq_zero)
  ultimately show ?case
    using Cons.IH by auto
qed

lemma dict_edges_delete:
  "dict_edges (AList.delete k lhs) = {(a, b). (a, b) \<in> dict_edges lhs \<and> a \<noteq> k}"
  by (auto simp: dict_edges_def AList.delete_eq)

lemma dict_edges_key: "(a, b) \<in> dict_edges lhs \<Longrightarrow> a \<in> set (map fst lhs)"
  by (force simp: dict_edges_def)

lemma unique_item_key:
  "item \<in> set (unique_items lhs rhs) \<Longrightarrow>
   item \<in> set (map fst lhs) \<and> item \<notin> set (map fst rhs)"
  by (auto simp: unique_items_def)

lemma unique_item_no_incoming:
  assumes "consistent lhs rhs" and "item \<in> set (unique_items lhs rhs)"
  shows "(w, item) \<notin> dict_edges lhs"
proof -
  have "item \<notin> set (map fst rhs)"
    using assms(2) unique_item_key[of item lhs rhs] by blast
  moreover have "0 \<notin> snd ` set rhs"
    using assms(1) by (simp add: consistent_def)
  ultimately have "dict_get rhs item 0 = 0"
    using dict_get_key[of rhs item] by blast
  then have "in_count lhs item = 0"
    using assms(1) by (simp add: consistent_def)
  then show ?thesis
    using in_count_edge[of lhs item] by auto
qed

lemma consistent_step:
  assumes "consistent lhs rhs" and "item \<in> set (unique_items lhs rhs)"
  shows "consistent (AList.delete item lhs) (fold decrease (dict_get lhs item []) rhs)"
proof -
  have d: "distinct (map fst lhs)" and nz: "0 \<notin> snd ` set rhs"
    and c: "\<And>y. dict_get rhs y 0 = int (in_count lhs y)"
    using assms(1) by (simp_all add: consistent_def)
  have "item \<in> fst ` set lhs"
    using assms(2) unique_item_key[of item lhs rhs] by simp
  then obtain vs where vs: "map_of lhs item = Some vs"
    by (metis map_of_eq_None_iff not_Some_eq)
  then have g: "dict_get lhs item [] = vs"
    by (simp add: dict_get_def)
  have "distinct (map fst (AList.delete item lhs))"
    using d by (rule AList.distinct_delete)
  moreover have "0 \<notin> snd ` set (fold decrease vs rhs)"
    using nz by (rule fold_decrease_nonzero)
  moreover have "dict_get (fold decrease vs rhs) y 0 = int (in_count (AList.delete item lhs) y)"
    for y
    using in_count_delete[OF d vs, of y] c[of y] by (simp add: fold_decrease_get)
  ultimately show ?thesis
    by (simp add: consistent_def g)
qed

lemma trancl_avoid:
  assumes "(x, y) \<in> R\<^sup>+" and "\<And>w. (w, a) \<notin> R" and "x \<noteq> a"
  shows "(x, y) \<in> {(u, v). (u, v) \<in> R \<and> u \<noteq> a}\<^sup>+"
  using assms(1)
proof (induction rule: trancl_induct)
  case (base y)
  then show ?case
    using assms(3) by (intro r_into_trancl) simp
next
  case (step y z)
  from step.hyps(1) obtain w where "(w, y) \<in> R"
    by (meson tranclD2)
  then have "y \<noteq> a"
    using assms(2) by blast
  then have "(y, z) \<in> {(u, v). (u, v) \<in> R \<and> u \<noteq> a}"
    using step.hyps(2) by simp
  with step.IH show ?case
    by (rule trancl_into_trancl)
qed

lemma cycle_survives_delete:
  assumes "consistent lhs rhs" and "item \<in> set (unique_items lhs rhs)"
    and "(x, x) \<in> (dict_edges lhs)\<^sup>+"
  shows "(x, x) \<in> (dict_edges (AList.delete item lhs))\<^sup>+"
proof -
  have no: "\<And>w. (w, item) \<notin> dict_edges lhs"
    using assms(1,2) by (rule unique_item_no_incoming)
  from assms(3) obtain w where "(w, x) \<in> dict_edges lhs"
    by (meson tranclD2)
  then have "x \<noteq> item"
    using no by blast
  with assms(3) no show ?thesis
    unfolding dict_edges_delete by (intro trancl_avoid)
qed

text \<open>
  The loop in a state that satisfies the invariant and whose edges contain a cycle
  raises the ordering error, and the error's \<open>LHS\<close> dictionary has the identities on
  the cycle among its keys.
\<close>

lemma order_loop_cycle:
  "consistent lhs rhs \<Longrightarrow> (x, x) \<in> (dict_edges lhs)\<^sup>+ \<Longrightarrow>
   \<exists>l r. order_loop rt lhs rhs order = Inl (SyntaxError_Order l r) \<and> x \<in> set (map fst l)"
proof (induction rt lhs rhs order rule: order_loop.induct)
  case (1 rt lhs rhs order)
  from "1.prems"(2) obtain z where "(x, z) \<in> dict_edges lhs"
    by (meson tranclD)
  then have key: "x \<in> set (map fst lhs)"
    by (rule dict_edges_key)
  then have ne: "lhs \<noteq> []"
    by auto
  show ?case
  proof (cases "unique_items lhs rhs = []")
    case True
    then have "order_loop rt lhs rhs order = Inl (SyntaxError_Order lhs rhs)"
      using ne by (simp add: order_loop.simps[of rt lhs rhs order])
    then show ?thesis
      using key by blast
  next
    case False
    define item where "item = set_pop rt (unique_items lhs rhs)"
    have item: "item \<in> set (unique_items lhs rhs)"
      unfolding item_def using False by (rule set_pop_member)
    have "consistent (AList.delete item lhs) (fold decrease (dict_get lhs item []) rhs)"
      using "1.prems"(1) item by (rule consistent_step)
    moreover have "(x, x) \<in> (dict_edges (AList.delete item lhs))\<^sup>+"
      using "1.prems"(1) item "1.prems"(2) by (rule cycle_survives_delete)
    ultimately have "\<exists>l r. order_loop rt (AList.delete item lhs)
        (fold decrease (dict_get lhs item []) rhs) (order @ [item]) =
        Inl (SyntaxError_Order l r) \<and> x \<in> set (map fst l)"
      using "1.IH"[OF ne False item_def] by blast
    moreover have "order_loop rt lhs rhs order =
        order_loop rt (AList.delete item lhs)
          (fold decrease (dict_get lhs item []) rhs) (order @ [item])"
      using ne False by (simp add: order_loop.simps[of rt lhs rhs order] item_def Let_def)
    ultimately show ?thesis
      by simp
  qed
qed

lemma in_count_append_edge:
  "in_count (AList.update k (dict_get lhs k [] @ [v]) lhs) y =
   in_count lhs y + (if v = y then 1 else 0)"
proof (induction lhs)
  case Nil
  then show ?case by (simp add: in_count_def dict_get_def)
next
  case (Cons p lhs)
  show ?case
  proof (cases "fst p = k")
    case True
    then show ?thesis
      by (cases p) (simp add: in_count_def dict_get_def)
  next
    case False
    then have "dict_get (p # lhs) k [] = dict_get lhs k []"
      by (cases p) (simp add: dict_get_def)
    then show ?thesis
      using False Cons.IH by (simp add: in_count_def)
  qed
qed

lemma dict_edges_append_edge:
  "dict_edges (AList.update k (dict_get lhs k [] @ [v]) lhs) = insert (k, v) (dict_edges lhs)"
proof (induction lhs)
  case Nil
  then show ?case by (auto simp: dict_edges_def dict_get_def)
next
  case (Cons p lhs)
  have split: "dict_edges (q # d) = {(fst q, b) | b. b \<in> set (snd q)} \<union> dict_edges d" for q d
    by (cases q) (auto simp: dict_edges_def)
  show ?case
  proof (cases "fst p = k")
    case True
    then have "AList.update k (dict_get (p # lhs) k [] @ [v]) (p # lhs) =
        (k, snd p @ [v]) # lhs"
      by (cases p) (simp add: dict_get_def)
    then show ?thesis
      using True by (auto simp: split)
  next
    case False
    then have "AList.update k (dict_get (p # lhs) k [] @ [v]) (p # lhs) =
        p # AList.update k (dict_get lhs k [] @ [v]) lhs"
      by (cases p) (simp add: dict_get_def)
    then show ?thesis
      using Cons.IH by (auto simp: split)
  qed
qed

lemma add_relation_consistent:
  assumes "consistent (fst d) (snd d)"
  shows "consistent (fst (add_relation e d)) (snd (add_relation e d))"
proof -
  let ?l = "left_operand e" and ?r = "right_operand e"
  have dist: "distinct (map fst (fst d))" and nz: "0 \<notin> snd ` set (snd d)"
    and c: "\<And>y. dict_get (snd d) y 0 = int (in_count (fst d) y)"
    using assms by (simp_all add: consistent_def)
  have "distinct (map fst (AList.update ?l (dict_get (fst d) ?l [] @ [?r]) (fst d)))"
    using dist by (rule AList.distinct_update)
  moreover have "dict_get (snd d) ?r 0 + 1 \<noteq> 0"
    using c[of ?r] by simp
  then have "0 \<notin> snd ` set (AList.update ?r (dict_get (snd d) ?r 0 + 1) (snd d))"
    using nz set_update_subset[of ?r "dict_get (snd d) ?r 0 + 1" "snd d"] by force
  moreover have "dict_get (AList.update ?r (dict_get (snd d) ?r 0 + 1) (snd d)) y 0 =
      int (in_count (AList.update ?l (dict_get (fst d) ?l [] @ [?r]) (fst d)) y)" for y
    using c[of y] c[of ?r] by (simp add: dict_get_update in_count_append_edge)
  ultimately show ?thesis
    by (simp add: consistent_def add_relation_def)
qed

lemma fold_add_relation:
  "consistent (fst d) (snd d) \<Longrightarrow>
   consistent (fst (fold add_relation rels d)) (snd (fold add_relation rels d)) \<and>
   dict_edges (fst (fold add_relation rels d)) = edges rels \<union> dict_edges (fst d)"
proof (induction rels arbitrary: d)
  case Nil
  then show ?case by (simp add: edges_def)
next
  case (Cons e rels)
  have "consistent (fst (add_relation e d)) (snd (add_relation e d))"
    using Cons.prems by (rule add_relation_consistent)
  from Cons.IH[OF this]
  have "consistent (fst (fold add_relation (e # rels) d)) (snd (fold add_relation (e # rels) d))"
    and "dict_edges (fst (fold add_relation (e # rels) d)) =
      edges rels \<union> dict_edges (fst (add_relation e d))"
    by simp_all
  moreover have "dict_edges (fst (add_relation e d)) =
      insert (left_operand e, right_operand e) (dict_edges (fst d))"
    by (simp add: add_relation_def dict_edges_append_edge)
  moreover have "edges (e # rels) = insert (left_operand e, right_operand e) (edges rels)"
    by (simp add: edges_def)
  ultimately show ?case
    by auto
qed

lemma generate_execution_order_cycle:
  assumes "on_cycle rels x"
  shows "\<exists>l r. generate_execution_order rt rels irr = Inl (SyntaxError_Order l r) \<and>
           x \<in> set (map fst l)"
proof -
  define d where "d = fold add_relation rels ([], [])"
  have "consistent (fst ([], [])) (snd ([], []))"
    by (simp add: consistent_def dict_get_def in_count_def)
  from fold_add_relation[OF this, of rels]
  have "consistent (fst d) (snd d)" and "dict_edges (fst d) = edges rels"
    by (simp_all add: d_def dict_edges_def)
  then obtain l r where "order_loop rt (fst d) (snd d) [] = Inl (SyntaxError_Order l r)"
    and "x \<in> set (map fst l)"
    using assms order_loop_cycle[of "fst d" "snd d" x rt "[]"] by (auto simp: on_cycle_def)
  then show ?thesis
    by (simp add: generate_execution_order_def Let_def d_def[symmetric])
qed

text \<open>
  Claim C2. For every batch whose merged edges contain a cycle, \<open>generate_sequence\<close>
  returns no sequence: it raises the ordering error, which carries the dictionaries of
  the unresolved identities, every identity on the cycle among the keys of the first.
\<close>

theorem cycle_raises_ordering_error:
  assumes "on_cycle (chain_relations rt exprs) x"
  shows "\<exists>l r. generate_sequence rt exprs = Inl (SyntaxError_Order l r) \<and>
           x \<in> set (map fst l)"
proof -
  have "\<not> on_cycle [] x"
    by (simp add: on_cycle_def edges_def)
  with assms obtain exprs2 rels where
    t: "transform_to_left_rel (fst (remove_irrelevant_exprs exprs)) = Inr exprs2"
    and n: "new_relations rt exprs2 = Inr rels"
    and r: "chain_relations rt exprs = rels"
    by (auto simp: chain_relations_def split: sum.splits)
  obtain l r where
    "generate_execution_order rt rels (snd (remove_irrelevant_exprs exprs)) =
       Inl (SyntaxError_Order l r)" and "x \<in> set (map fst l)"
    using generate_execution_order_cycle[of rels x] assms r by blast
  then show ?thesis
    using t n by (auto simp: generate_sequence_def split: prod.splits)
qed

text \<open>Scenario D: \<open>a << b\<close> followed by \<open>b << a\<close> in one namespace.\<close>

theorem cycle_raises_ordering_error_witness:
  "on_cycle (chain_relations sample_runtime
      [forward (PluginIndex (Some ''t'') ''a'') 0 (PluginIndex (Some ''t'') ''b''),
       forward (PluginIndex (Some ''t'') ''b'') 0 (PluginIndex (Some ''t'') ''a'')])
     (PluginIndex (Some ''t'') ''a'') \<and>
   (\<exists>l r. generate_sequence sample_runtime
      [forward (PluginIndex (Some ''t'') ''a'') 0 (PluginIndex (Some ''t'') ''b''),
       forward (PluginIndex (Some ''t'') ''b'') 0 (PluginIndex (Some ''t'') ''a'')] =
      Inl (SyntaxError_Order l r) \<and> PluginIndex (Some ''t'') ''a'' \<in> set (map fst l))"
proof -
  let ?a = "PluginIndex (Some ''t'') ''a''" and ?b = "PluginIndex (Some ''t'') ''b''"
  have "edges (chain_relations sample_runtime [forward ?a 0 ?b, forward ?b 0 ?a]) =
      {(?a, ?b), (?b, ?a)}"
    by (auto simp: chain_relations_def edges_def eval_defs sample_runtime_def)
  moreover have "(?a, ?a) \<in> {(?a, ?b), (?b, ?a)}\<^sup>+"
    by (rule trancl_into_trancl[of _ ?b]) auto
  ultimately have "on_cycle (chain_relations sample_runtime [forward ?a 0 ?b, forward ?b 0 ?a]) ?a"
    by (simp add: on_cycle_def)
  from this cycle_raises_ordering_error[OF this] show ?thesis
    by blast
qed

section \<open>The sequencing loop on edges without a cycle\<close>









section \<open>The relation groups when the hash has no collision\<close>

lemma dropWhile_other_operand:
  fixes h :: "PluginIndex \<Rightarrow> int" and op_name :: "expr \<Rightarrow> PluginIndex"
  shows "sorted_wrt (\<lambda>a b. h (op_name a) \<le> h (op_name b)) (e # es) \<Longrightarrow>
   inj_on h (op_name ` set (e # es)) \<Longrightarrow>
   x \<in> set (dropWhile (\<lambda>y. op_name e = op_name y) es) \<Longrightarrow> op_name x \<noteq> op_name e"
proof (induction es)
  case Nil
  then show ?case by simp
next
  case (Cons a es)
  show ?case
  proof (cases "op_name e = op_name a")
    case True
    have "sorted_wrt (\<lambda>a b. h (op_name a) \<le> h (op_name b)) (e # es)"
      using Cons.prems(1) by simp
    moreover have "inj_on h (op_name ` set (e # es))"
      using Cons.prems(2) by (rule inj_on_subset) auto
    moreover have "x \<in> set (dropWhile (\<lambda>y. op_name e = op_name y) es)"
      using Cons.prems(3) True by simp
    ultimately show ?thesis
      by (rule Cons.IH)
  next
    case False
    then have "x \<in> set (a # es)"
      using Cons.prems(3) by simp
    then have "h (op_name a) \<le> h (op_name x)"
      using Cons.prems(1) by auto
    moreover have "h (op_name e) \<le> h (op_name a)"
      using Cons.prems(1) by simp
    moreover have "h (op_name e) \<noteq> h (op_name a)"
      using False Cons.prems(2) by (auto simp: inj_on_def)
    ultimately have "h (op_name e) \<noteq> h (op_name x)"
      by linarith
    then show ?thesis
      by auto
  qed
qed

lemma takeWhile_same_operand:
  fixes h :: "PluginIndex \<Rightarrow> int" and op_name :: "expr \<Rightarrow> PluginIndex"
  assumes "sorted_wrt (\<lambda>a b. h (op_name a) \<le> h (op_name b)) (e # es)"
    and "inj_on h (op_name ` set (e # es))"
  shows "takeWhile (\<lambda>y. op_name e = op_name y) es = filter (\<lambda>y. op_name e = op_name y) es"
proof (rule takeWhile_eq_filter)
  fix x
  assume "x \<in> set (dropWhile (\<lambda>y. op_name e = op_name y) es)"
  with assms have "op_name x \<noteq> op_name e"
    by (rule dropWhile_other_operand)
  then show "\<not> op_name e = op_name x"
    by simp
qed

lemma filter_dropWhile_other:
  "x \<noteq> op_name e \<Longrightarrow>
   filter (\<lambda>y. x = op_name y) (dropWhile (\<lambda>y. op_name e = op_name y) es) =
   filter (\<lambda>y. x = op_name y) es"
proof (induction es)
  case Nil
  then show ?case by simp
next
  case (Cons a es)
  show ?case
  proof (cases "op_name e = op_name a")
    case True
    then have "x \<noteq> op_name a"
      using Cons.prems by simp
    then have "filter (\<lambda>y. x = op_name y) (a # es) = filter (\<lambda>y. x = op_name y) es"
      by simp
    moreover have "dropWhile (\<lambda>y. op_name e = op_name y) (a # es) =
        dropWhile (\<lambda>y. op_name e = op_name y) es"
      using True by simp
    ultimately show ?thesis
      using Cons.IH[OF Cons.prems] by (simp only:)
  next
    case False
    then show ?thesis by simp
  qed
qed

lemma in_dropWhile_other:
  "y \<in> set es \<Longrightarrow> op_name y \<noteq> op_name e \<Longrightarrow>
   y \<in> set (dropWhile (\<lambda>y. op_name e = op_name y) es)"
  by (induction es) auto

lemma operands_dropWhile:
  fixes h :: "PluginIndex \<Rightarrow> int" and op_name :: "expr \<Rightarrow> PluginIndex"
  assumes "sorted_wrt (\<lambda>a b. h (op_name a) \<le> h (op_name b)) (e # es)"
    and "inj_on h (op_name ` set (e # es))"
  shows "op_name ` set (dropWhile (\<lambda>y. op_name e = op_name y) es) =
     op_name ` set (e # es) - {op_name e}"
proof (rule set_eqI)
  fix x
  show "(x \<in> op_name ` set (dropWhile (\<lambda>y. op_name e = op_name y) es)) =
     (x \<in> op_name ` set (e # es) - {op_name e})"
  proof
    assume "x \<in> op_name ` set (dropWhile (\<lambda>y. op_name e = op_name y) es)"
    then obtain y where y: "y \<in> set (dropWhile (\<lambda>y. op_name e = op_name y) es)"
      and x: "x = op_name y"
      by blast
    from assms y have "op_name y \<noteq> op_name e"
      by (rule dropWhile_other_operand)
    moreover have "y \<in> set es"
      using y by (rule set_dropWhileD)
    ultimately show "x \<in> op_name ` set (e # es) - {op_name e}"
      using x by simp
  next
    assume "x \<in> op_name ` set (e # es) - {op_name e}"
    then obtain y where "y \<in> set es" and "op_name y \<noteq> op_name e" and x: "x = op_name y"
      by auto
    then have "y \<in> set (dropWhile (\<lambda>y. op_name e = op_name y) es)"
      by (simp add: in_dropWhile_other)
    then show "x \<in> op_name ` set (dropWhile (\<lambda>y. op_name e = op_name y) es)"
      using x by blast
  qed
qed

text \<open>
  On a list in which the operands come in the order of their hashes, \<open>_yield_group\<close>
  yields, for each operand, the expressions with that operand.
\<close>

lemma yield_group_sorted:
  fixes h :: "PluginIndex \<Rightarrow> int"
  shows "sorted_wrt (\<lambda>a b. h (op_name a) \<le> h (op_name b)) xs \<Longrightarrow>
   inj_on h (op_name ` set xs) \<Longrightarrow>
   set (yield_group xs op_name) =
     (\<lambda>x. filter (\<lambda>y. x = op_name y) xs) ` (op_name ` set xs)"
proof (induction xs op_name rule: yield_group.induct)
  case (1 op_name)
  then show ?case by simp
next
  case (2 e es op_name)
  define dw where "dw = dropWhile (\<lambda>y. op_name e = op_name y) es"
  define G where "G = (\<lambda>xs x. filter (\<lambda>y. x = op_name y) xs)"
  define others where "others = op_name ` set (e # es) - {op_name e}"
  have first: "e # takeWhile (\<lambda>y. op_name e = op_name y) es = G (e # es) (op_name e)"
    using takeWhile_same_operand[OF "2.prems"] by (simp add: G_def)
  have ops: "op_name ` set dw = others"
    unfolding dw_def others_def using "2.prems" by (rule operands_dropWhile)
  have rest: "G dw x = G (e # es) x" if "x \<in> others" for x
  proof -
    from that have "x \<noteq> op_name e"
      by (simp add: others_def)
    then show ?thesis
      by (simp add: G_def dw_def filter_dropWhile_other)
  qed
  have "sorted_wrt (\<lambda>a b. h (op_name a) \<le> h (op_name b)) dw"
    unfolding dw_def using "2.prems"(1) by simp
  moreover have "op_name ` set dw \<subseteq> op_name ` set (e # es)"
    unfolding ops others_def by blast
  then have "inj_on h (op_name ` set dw)"
    using "2.prems"(2) by (rule inj_on_subset[rotated])
  ultimately have "set (yield_group dw op_name) = G dw ` (op_name ` set dw)"
    unfolding dw_def G_def by (rule "2.IH")
  also have "\<dots> = G dw ` others"
    by (simp only: ops)
  also have "\<dots> = G (e # es) ` others"
    using rest by (rule image_cong[OF refl])
  finally have groups: "set (yield_group (e # es) op_name) =
      insert (G (e # es) (op_name e)) (G (e # es) ` others)"
    using first by (simp add: dw_def)
  have "insert (op_name e) others = op_name ` set (e # es)"
    unfolding others_def by auto
  then have "G (e # es) ` (op_name ` set (e # es)) =
      insert (G (e # es) (op_name e)) (G (e # es) ` others)"
    by (metis image_insert)
  with groups show ?case
    unfolding G_def by simp
qed

lemma insort_key_equiv:
  "(\<And>b. b \<in> set ys \<Longrightarrow> (f a \<le> f b) = (g a \<le> g b)) \<Longrightarrow>
   insort_key f a ys = insort_key g a ys"
  by (induction ys) auto

lemma sort_key_equiv:
  "(\<And>a b. a \<in> set xs \<Longrightarrow> b \<in> set xs \<Longrightarrow> (f a \<le> f b) = (g a \<le> g b)) \<Longrightarrow>
   sort_key f xs = sort_key g xs"
proof (induction xs)
  case Nil
  then show ?case by simp
next
  case (Cons x xs)
  have "sort_key f xs = sort_key g xs"
    using Cons.prems by (intro Cons.IH) auto
  moreover have "insort_key f x (sort_key g xs) = insort_key g x (sort_key g xs)"
    using Cons.prems by (intro insort_key_equiv) auto
  ultimately show ?case by simp
qed

lemma sort_key_same_operand:
  fixes h :: "PluginIndex \<Rightarrow> int"
  shows "(\<And>y. y \<in> set ys \<Longrightarrow> op_name y = x) \<Longrightarrow>
   sort_key (\<lambda>e. (h (op_name e), rel_degree e)) ys = sort_key rel_degree ys"
  by (rule sort_key_equiv) (simp add: less_eq_prod_def)

lemma left_groups:
  assumes "inj_on (py_hash rt) (left_operand ` set es)"
  shows "set (yield_group (sorted_py (cmp_key_left rt) False es) left_operand) =
     left_group es ` (left_operand ` set es)"
proof -
  let ?key = "\<lambda>e. (py_hash rt (left_operand e), rel_degree e)"
  let ?S = "sort_key ?key es"
  have "sorted_wrt (\<lambda>a b. ?key a \<le> ?key b) ?S"
    using sorted_sort_key[of ?key es] by (simp only: sorted_wrt_map)
  then have "sorted_wrt (\<lambda>a b. py_hash rt (left_operand a) \<le> py_hash rt (left_operand b)) ?S"
    by (rule sorted_wrt_mono_rel[rotated]) (auto simp: less_eq_prod_def)
  moreover have "inj_on (py_hash rt) (left_operand ` set ?S)"
    using assms by simp
  ultimately have "set (yield_group ?S left_operand) =
      (\<lambda>x. filter (\<lambda>y. x = left_operand y) ?S) ` (left_operand ` set ?S)"
    by (rule yield_group_sorted)
  moreover have "filter (\<lambda>y. x = left_operand y) ?S = left_group es x" for x
  proof -
    have "filter (\<lambda>y. x = left_operand y) ?S =
        sort_key ?key (filter (\<lambda>y. x = left_operand y) es)"
      by (rule filter_sort)
    also have "\<dots> = sort_key rel_degree (filter (\<lambda>y. x = left_operand y) es)"
      by (rule sort_key_same_operand[where x = x]) simp
    finally show ?thesis
      by (simp only: left_group_def)
  qed
  moreover have "cmp_key_left rt = ?key"
    by (simp add: fun_eq_iff cmp_key_left_def)
  ultimately show ?thesis
    by (simp add: sorted_py_def)
qed

lemma right_groups:
  assumes "inj_on (py_hash rt) (right_operand ` set es)"
  shows "set (yield_group (sorted_py (cmp_key_right rt) True es) right_operand) =
     right_group es ` (right_operand ` set es)"
proof -
  let ?key = "\<lambda>e. (py_hash rt (right_operand e), rel_degree e)"
  let ?T = "sort_key ?key (rev es)"
  let ?h = "\<lambda>i. - py_hash rt i"
  have "sorted_wrt (\<lambda>a b. ?key a \<le> ?key b) ?T"
    using sorted_sort_key[of ?key "rev es"] by (simp only: sorted_wrt_map)
  then have "sorted_wrt (\<lambda>a b. py_hash rt (right_operand a) \<le> py_hash rt (right_operand b)) ?T"
    by (rule sorted_wrt_mono_rel[rotated]) (auto simp: less_eq_prod_def)
  then have "sorted_wrt (\<lambda>a b. ?h (right_operand a) \<le> ?h (right_operand b)) (rev ?T)"
    by (simp add: sorted_wrt_rev)
  moreover have "inj_on ?h (right_operand ` set (rev ?T))"
    using assms by (auto simp: inj_on_def)
  ultimately have "set (yield_group (rev ?T) right_operand) =
      (\<lambda>x. filter (\<lambda>y. x = right_operand y) (rev ?T)) ` (right_operand ` set (rev ?T))"
    by (rule yield_group_sorted)
  moreover have "filter (\<lambda>y. x = right_operand y) (rev ?T) = right_group es x" for x
  proof -
    have "filter (\<lambda>y. x = right_operand y) ?T =
        sort_key ?key (filter (\<lambda>y. x = right_operand y) (rev es))"
      by (rule filter_sort)
    also have "\<dots> = sort_key rel_degree (filter (\<lambda>y. x = right_operand y) (rev es))"
      by (rule sort_key_same_operand[where x = x]) simp
    finally have "rev (filter (\<lambda>y. x = right_operand y) ?T) = right_group es x"
      by (simp only: right_group_def)
    then show ?thesis
      by (simp only: rev_filter)
  qed
  moreover have "cmp_key_right rt = ?key"
    by (simp add: fun_eq_iff cmp_key_right_def)
  ultimately show ?thesis
    by (simp add: sorted_py_def)
qed



section \<open>What the result depends on\<close>






text \<open>
  With a collision of hashes the sort can put another operand between the expressions
  of one anchor, and the chain of that anchor is cut: without collisions the batch
  below has the chain \<open>x\<close>, \<open>aa\<close>, \<open>bbb\<close>, which \<open>bbb << aa\<close> closes to a
  cycle; when all hashes are equal it has none. So the hypothesis of the amended claim
  cannot be dropped.
\<close>

lemma collision_changes_outcome:
  "(\<exists>l r. generate_sequence sample_runtime split_group = Inl (SyntaxError_Order l r)) \<and>
   generate_sequence constant_runtime split_group =
     Inr [PluginIndex (Some ''t'') ''x'', PluginIndex (Some ''t'') ''yyyy'',
          PluginIndex (Some ''t'') ''bbb'', PluginIndex (Some ''t'') ''aa'',
          PluginIndex (Some ''t'') ''ccccc'']"
  by (simp add: eval_defs set_iter.simps split_group_def sample_runtime_def constant_runtime_def)



end
